theory Spec2Isabelle
  imports Main "HOL-Library.Word"
begin

section \<open>The Brainfuck engine of brainfuck.go\<close>

text \<open>
  The program keeps its state in package-level variables: the tape (a byte slice of
  \<open>TapeLength\<close> cells), the data pointer, the index of the current token and the
  stack of loop origins. The model threads them through every call as a record, together
  with the two streams the program reads from and writes to (standard input and output).
  Go's \<open>int\<close> is modelled as \<open>int\<close>: no computation of the program leaves the 64-bit
  range, and the index is transiently \<open>-1\<close> when a loop at position 0 is re-entered.
  A source text is a Go string, that is a sequence of bytes: \<open>string\<close>.
\<close>

type_synonym byte = "8 word"

definition TapeLength :: int where
  "TapeLength = 30000"

text \<open>What the program writes: \<open>fmt.Printf("%c", b)\<close> and \<open>fmt.Println(text)\<close>.\<close>

datatype out_item = PrintChar byte | PrintLine string

record state =
  tape :: "byte list"
  pointer :: int
  index :: int
  loopStack :: "int list"
  stdin :: "nat list"
  stdout :: "out_item list"

text \<open>The two error values \<open>Validate\<close> creates, and the run-time panics of the program.\<close>

datatype error = UnmatchedClose | UnmatchedOpen

datatype panic = CodeIndexOutOfRange | TapeIndexOutOfRange | EmptyStack

subsection \<open>The stack package\<close>

text \<open>
  Modelled from the spec: the type \<open>stack.Stack\<close> of the imported package
  \<open>github.com/TalkTakesTime/stack\<close>, whose source is not part of the repository. The
  spec calls it an ordered, last-in-first-out sequence, and a pop of the empty stack
  fails. The top of the stack is the head of the list.
\<close>

definition Push :: "'a \<Rightarrow> 'a list \<Rightarrow> 'a list" where
  "Push x st = x # st"

definition Pop :: "'a list \<Rightarrow> ('a \<times> 'a list) option" where
  "Pop st = (case st of [] \<Rightarrow> None | x # xs \<Rightarrow> Some (x, xs))"

definition IsEmpty :: "'a list \<Rightarrow> bool" where
  "IsEmpty st = (st = [])"

definition Length :: "'a list \<Rightarrow> int" where
  "Length st = int (length st)"

subsection \<open>Tape operations\<close>

definition MoveLeft :: "state \<Rightarrow> state" where
  "MoveLeft s = (if pointer s = 0 then s\<lparr>pointer := TapeLength - 1\<rparr>
                 else s\<lparr>pointer := pointer s - 1\<rparr>)"

definition MoveRight :: "state \<Rightarrow> state" where
  "MoveRight s = (if pointer s = TapeLength - 1 then s\<lparr>pointer := 0\<rparr>
                  else s\<lparr>pointer := pointer s + 1\<rparr>)"

text \<open>\<open>tape[pointer]\<close> panics when the pointer is outside the slice.\<close>

definition in_tape :: "state \<Rightarrow> bool" where
  "in_tape s = (0 \<le> pointer s \<and> pointer s < int (length (tape s)))"

definition cell :: "state \<Rightarrow> byte" where
  "cell s = tape s ! nat (pointer s)"

definition set_cell :: "byte \<Rightarrow> state \<Rightarrow> state" where
  "set_cell v s = s\<lparr>tape := (tape s)[nat (pointer s) := v]\<rparr>"

definition Increment :: "state \<Rightarrow> panic + state" where
  "Increment s = (if in_tape s then Inr (set_cell (cell s + 1) s)
                  else Inl TapeIndexOutOfRange)"

definition Decrement :: "state \<Rightarrow> panic + state" where
  "Decrement s = (if in_tape s then Inr (set_cell (cell s - 1) s)
                  else Inl TapeIndexOutOfRange)"

definition Output :: "state \<Rightarrow> panic + state" where
  "Output s = (if in_tape s then Inr (s\<lparr>stdout := stdout s @ [PrintChar (cell s)]\<rparr>)
               else Inl TapeIndexOutOfRange)"

text \<open>
  \<open>fmt.Scanf("%c", &tape[pointer])\<close> with a pointer to a byte. The input is the
  sequence of runes (code points) the scanner decodes from standard input. The scanner
  takes the next rune; a rune up to 127 is stored in the cell, a larger one does not fit
  the scanner's 8-bit check and is an error. At the end of the input the scan fails too.
  The program drops the error: the cell keeps its value, and the rune is consumed.
\<close>

definition Input :: "state \<Rightarrow> panic + state" where
  "Input s = (if in_tape s then
                (case stdin s of
                   [] \<Rightarrow> Inr s
                 | r # rs \<Rightarrow>
                     if r \<le> 127 then Inr ((set_cell (of_nat r) s)\<lparr>stdin := rs\<rparr>)
                     else Inr (s\<lparr>stdin := rs\<rparr>))
              else Inl TapeIndexOutOfRange)"

text \<open>\<open>OpenLoop\<close> returns the skip flag and the state.\<close>

definition OpenLoop :: "int \<Rightarrow> state \<Rightarrow> panic + (bool \<times> state)" where
  "OpenLoop pos s = (if in_tape s then
                       (if cell s = 0 then Inr (True, s)
                        else Inr (False, s\<lparr>loopStack := Push pos (loopStack s)\<rparr>))
                     else Inl TapeIndexOutOfRange)"

definition CloseLoop :: "state \<Rightarrow> panic + (int \<times> state)" where
  "CloseLoop s = (case Pop (loopStack s) of
                    None \<Rightarrow> Inl EmptyStack
                  | Some (p, st) \<Rightarrow>
                      (if in_tape s then
                         (if cell s = 0 then Inr (- 1, s\<lparr>loopStack := st\<rparr>)
                          else Inr (p, s\<lparr>loopStack := st\<rparr>))
                       else Inl TapeIndexOutOfRange))"

definition ClearTape :: "state \<Rightarrow> state" where
  "ClearTape s = s\<lparr>tape := map (\<lambda>_. 0) (tape s), pointer := 0\<rparr>"

subsection \<open>Validate\<close>

text \<open>
  The loop of \<open>Validate\<close> over the source, \<open>i\<close> the byte position of the character
  and \<open>st\<close> the test stack. The source ranges over runes; a byte \<open>[\<close> or \<open>]\<close> is
  always a rune of its own in UTF-8, and the position Go hands out is the byte position,
  so the scan over bytes pushes and pops at the same places.
\<close>

fun Validate_loop :: "int \<Rightarrow> string \<Rightarrow> int list \<Rightarrow> error + int list" where
  "Validate_loop i [] st = Inr st"
| "Validate_loop i (c # cs) st =
     (if c = CHR ''['' then Validate_loop (i + 1) cs (Push i st)
      else if c = CHR '']'' then
        (case Pop st of
           None \<Rightarrow> Inl UnmatchedClose
         | Some (_, st') \<Rightarrow> Validate_loop (i + 1) cs st')
      else Validate_loop (i + 1) cs st)"

text \<open>\<open>None\<close> is Go's \<open>nil\<close> error.\<close>

definition Validate :: "string \<Rightarrow> error option" where
  "Validate code = (case Validate_loop 0 code [] of
                      Inl e \<Rightarrow> Some e
                    | Inr st \<Rightarrow> if Length st \<noteq> 0 then Some UnmatchedOpen else None)"

subsection \<open>The debug instructions\<close>

text \<open>Go's \<open>/\<close> on \<open>int\<close> truncates towards zero.\<close>

definition quot :: "int \<Rightarrow> int \<Rightarrow> int" where
  "quot a b = sgn a * sgn b * (\<bar>a\<bar> div \<bar>b\<bar>)"

text \<open>The verb \<open>%d\<close> of \<open>fmt.Sprintf\<close>.\<close>

fun fmt_nat :: "nat \<Rightarrow> string" where
  "fmt_nat n = (if n < 10 then [char_of (48 + n)]
                else fmt_nat (n div 10) @ [char_of (48 + n mod 10)])"

definition fmt_d :: "int \<Rightarrow> string" where
  "fmt_d i = (if i < 0 then CHR ''-'' # fmt_nat (nat (- i)) else fmt_nat (nat i))"

text \<open>
  The loop of \<open>FormatCells\<close>: \<open>for i := start; i != end+1; i++\<close>. Instead of the two
  texts it collects the pairs of index and cell that the two texts are made of; \<open>None\<close>
  is a loop that never ends.
\<close>

partial_function (option) FormatCells_loop ::
  "byte list \<Rightarrow> int \<Rightarrow> int \<Rightarrow> (int \<times> byte) list \<Rightarrow> (panic + (int \<times> byte) list) option" where
  "FormatCells_loop tp i e acc =
     (if i \<noteq> e + 1 then
        (let i' = (if i \<ge> TapeLength then 0 else i) in
         if 0 \<le> i' \<and> i' < int (length tp)
         then FormatCells_loop tp (i' + 1) e (acc @ [(i', tp ! nat i')])
         else Some (Inl TapeIndexOutOfRange))
      else Some (Inr acc))"

definition render_cells :: "(int \<times> byte) list \<Rightarrow> string" where
  "render_cells cs =
     concat (map (\<lambda>(i, v). CHR 0x09 # fmt_d i) cs) @ [CHR 0x0A] @
     (CHR ''['' # [CHR 0x09]) @ concat (map (\<lambda>(i, v). fmt_d (uint v) @ [CHR 0x09]) cs) @ '']''"

text \<open>The window of cells \<open>FormatCells\<close> walks over, after its two adjustments.\<close>

definition FormatCells_window ::
  "byte list \<Rightarrow> int \<Rightarrow> int \<Rightarrow> (panic + (int \<times> byte) list) option" where
  "FormatCells_window tp start e =
     (let start' = (if start < 0 then TapeLength + start - 1 else start);
          e' = (if e \<ge> TapeLength then e - TapeLength else e)
      in FormatCells_loop tp start' e' [])"

definition FormatCells :: "byte list \<Rightarrow> int \<Rightarrow> int \<Rightarrow> (panic + string) option" where
  "FormatCells tp start e =
     (case FormatCells_window tp start e of
        None \<Rightarrow> None
      | Some (Inl p) \<Rightarrow> Some (Inl p)
      | Some (Inr cs) \<Rightarrow> Some (Inr (render_cells cs)))"

text \<open>
  \<open>strconv.Atoi\<close> on the text of the second group of the pattern, which is empty or
  made of decimal digits: an error (\<open>None\<close>) on the empty text and on a value that does
  not fit 64 bits.
\<close>

definition is_digit :: "char \<Rightarrow> bool" where
  "is_digit c = (48 \<le> (of_char c :: nat) \<and> (of_char c :: nat) \<le> 57)"

definition is_lower :: "char \<Rightarrow> bool" where
  "is_lower c = (97 \<le> (of_char c :: nat) \<and> (of_char c :: nat) \<le> 122)"

definition Atoi :: "string \<Rightarrow> int option" where
  "Atoi ds = (if ds = [] \<or> \<not> list_all is_digit ds then None
              else (let n = foldl (\<lambda>a c. a * 10 + (int (of_char c) - 48)) 0 ds
                    in if n > 9223372036854775807 then None else Some n))"

text \<open>
  \<open>SpecialInstructionRegex.FindStringSubmatch\<close> with the pattern
  \<open>^!! ([a-z]+)([0-9]+)?\<close>: the whole match and the two groups, or nothing.
\<close>

definition FindStringSubmatch :: "string \<Rightarrow> string list" where
  "FindStringSubmatch txt =
     (if take 3 txt = ''!! '' then
        (let name = takeWhile is_lower (drop 3 txt);
             digits = takeWhile is_digit (drop (3 + length name) txt)
         in if name = [] then [] else [''!! '' @ name @ digits, name, digits])
      else [])"

definition RunSpecialInstruction :: "string list \<Rightarrow> state \<Rightarrow> (panic + state) option" where
  "RunSpecialInstruction inst s =
     (if inst ! 0 = ''clear'' then Some (Inr (ClearTape s))
      else if inst ! 0 = ''print'' then
        (case FormatCells (tape s) (pointer s - 5) (pointer s + 5) of
           None \<Rightarrow> None
         | Some (Inl p) \<Rightarrow> Some (Inl p)
         | Some (Inr txt) \<Rightarrow> Some (Inr (s\<lparr>stdout := stdout s @ [PrintLine txt]\<rparr>)))
      else if inst ! 0 = ''printn'' then
        (case Atoi (inst ! 1) of
           None \<Rightarrow> Some (Inr s)
         | Some n \<Rightarrow>
             (case FormatCells (tape s) (pointer s - quot n 2) (pointer s + quot n 2) of
                None \<Rightarrow> None
              | Some (Inl p) \<Rightarrow> Some (Inl p)
              | Some (Inr txt) \<Rightarrow> Some (Inr (s\<lparr>stdout := stdout s @ [PrintLine txt]\<rparr>))))
      else Some (Inr s))"

subsection \<open>Run\<close>

text \<open>
  The inner loop of the case \<open>[\<close>, entered when \<open>OpenLoop\<close> asks to skip: it moves
  the index forward, pushes on the skip stack at \<open>[\<close>, pops at \<open>]\<close> and stops when
  the skip stack is empty. Reading past the end of the source panics.
\<close>

function skip_loop :: "string \<Rightarrow> int \<Rightarrow> int list \<Rightarrow> panic + int" where
  "skip_loop code i skipStack =
     (let i' = i + 1 in
      if 0 \<le> i' \<and> i' < int (length code) then
        (if code ! nat i' = CHR ''['' then skip_loop code i' (Push 1 skipStack)
         else if code ! nat i' = CHR '']'' then
           (let sk = (case Pop skipStack of None \<Rightarrow> skipStack | Some (_, st) \<Rightarrow> st)
            in if IsEmpty sk then Inr i' else skip_loop code i' sk)
         else skip_loop code i' skipStack)
      else Inl CodeIndexOutOfRange)"
  by pat_completeness auto
termination
  by (relation "measure (\<lambda>(code, i, skipStack). nat (int (length code) - i))") auto

declare skip_loop.simps [simp del]

text \<open>The \<open>switch\<close> of \<open>Run\<close> on the character at the index.\<close>

definition dispatch :: "string \<Rightarrow> state \<Rightarrow> (panic + state) option" where
  "dispatch code s =
     (if 0 \<le> index s \<and> index s < int (length code) then
        (let c = code ! nat (index s) in
         if c = CHR ''<'' then Some (Inr (MoveLeft s))
         else if c = CHR ''>'' then Some (Inr (MoveRight s))
         else if c = CHR ''-'' then Some (Decrement s)
         else if c = CHR ''+'' then Some (Increment s)
         else if c = CHR ''.'' then Some (Output s)
         else if c = CHR '','' then Some (Input s)
         else if c = CHR ''['' then
           (case OpenLoop (index s) s of
              Inl p \<Rightarrow> Some (Inl p)
            | Inr (skip, s') \<Rightarrow>
                if skip then
                  (case skip_loop code (index s') (Push 1 []) of
                     Inl p \<Rightarrow> Some (Inl p)
                   | Inr i \<Rightarrow> Some (Inr (s'\<lparr>index := i\<rparr>)))
                else Some (Inr s'))
         else if c = CHR '']'' then
           (case CloseLoop s of
              Inl p \<Rightarrow> Some (Inl p)
            | Inr (i, s') \<Rightarrow> Some (Inr (if i \<noteq> - 1 then s'\<lparr>index := i - 1\<rparr> else s')))
         else if c = CHR ''!'' then
           (case FindStringSubmatch (drop (nat (index s)) code) of
              [] \<Rightarrow> Some (Inr s)
            | m # inst \<Rightarrow> RunSpecialInstruction inst s)
         else Some (Inr s))
      else Some (Inl CodeIndexOutOfRange))"

text \<open>One pass of the \<open>for\<close> loop up to its test: the switch, then \<open>index += 1\<close>.\<close>

definition Run_iter :: "string \<Rightarrow> state \<Rightarrow> (panic + state) option" where
  "Run_iter code s =
     (case dispatch code s of
        None \<Rightarrow> None
      | Some (Inl p) \<Rightarrow> Some (Inl p)
      | Some (Inr s') \<Rightarrow> Some (Inr (s'\<lparr>index := index s' + 1\<rparr>)))"

text \<open>The \<open>for\<close> loop; \<open>None\<close> is a loop that never ends.\<close>

partial_function (option) Run_loop :: "string \<Rightarrow> state \<Rightarrow> (panic + state) option" where
  "Run_loop code s =
     (case Run_iter code s of
        None \<Rightarrow> None
      | Some (Inl p) \<Rightarrow> Some (Inl p)
      | Some (Inr s') \<Rightarrow>
          if index s' \<ge> int (length code) then Some (Inr s') else Run_loop code s')"

text \<open>
  \<open>Run\<close> returns the error of \<open>Validate\<close> (\<open>None\<close> for \<open>nil\<close>) and the state it leaves,
  or panics, or never returns.
\<close>

definition Run_start :: "bool \<Rightarrow> state \<Rightarrow> state" where
  "Run_start clearTape s = (if clearTape then ClearTape s else s)\<lparr>index := 0\<rparr>"

definition Run :: "string \<Rightarrow> bool \<Rightarrow> state \<Rightarrow> (panic + (error option \<times> state)) option" where
  "Run code clearTape s =
     (case Validate code of
        Some err \<Rightarrow> Some (Inr (Some err, s))
      | None \<Rightarrow>
          (case Run_loop code (Run_start clearTape s) of
             None \<Rightarrow> None
           | Some (Inl p) \<Rightarrow> Some (Inl p)
           | Some (Inr s') \<Rightarrow> Some (Inr (None, s'\<lparr>stdout := stdout s' @ [PrintLine []]\<rparr>))))"

section \<open>What the claims are measured against\<close>

text \<open>
  Properly nested, fully matched bracket sequences, as a grammar: the empty text, any
  other character in front of a balanced text, and a balanced text in brackets followed
  by a balanced text.
\<close>

inductive bal :: "string \<Rightarrow> bool" where
  bal_Nil: "bal []"
| bal_other: "c \<noteq> CHR ''['' \<Longrightarrow> c \<noteq> CHR '']'' \<Longrightarrow> bal w \<Longrightarrow> bal (c # w)"
| bal_loop: "bal u \<Longrightarrow> bal v \<Longrightarrow> bal (CHR ''['' # u @ CHR '']'' # v)"

text \<open>The number of \<open>[\<close> of a text minus its number of \<open>]\<close>.\<close>

definition excess :: "string \<Rightarrow> int" where
  "excess w = int (count_list w (CHR ''['')) - int (count_list w (CHR '']''))"

text \<open>The part of a text from position \<open>a\<close> up to, and without, position \<open>b\<close>.\<close>

definition between :: "'a list \<Rightarrow> nat \<Rightarrow> nat \<Rightarrow> 'a list" where
  "between xs a b = take (b - a) (drop a xs)"

text \<open>
  The \<open>]\<close> at position \<open>j\<close> matches the \<open>[\<close> at position \<open>i\<close>: the text between
  them is balanced.
\<close>

definition matching :: "string \<Rightarrow> nat \<Rightarrow> nat \<Rightarrow> bool" where
  "matching code i j =
     (i < j \<and> j < length code \<and> code ! i = CHR ''['' \<and> code ! j = CHR '']''
      \<and> bal (between code (i + 1) j))"

text \<open>The test stack of \<open>Validate\<close> after the first \<open>n\<close> characters of the source.\<close>

definition pending :: "string \<Rightarrow> nat \<Rightarrow> error + int list" where
  "pending code n = Validate_loop 0 (take n code) []"

text \<open>
  The states in which the \<open>for\<close> loop of \<open>Run\<close> starts a pass, from the state
  \<open>s0\<close> of its first pass.
\<close>

inductive reaches :: "string \<Rightarrow> state \<Rightarrow> state \<Rightarrow> bool" for code s0 where
  reaches_start: "reaches code s0 s0"
| reaches_iter: "reaches code s0 s \<Longrightarrow> Run_iter code s = Some (Inr s')
     \<Longrightarrow> index s' < int (length code) \<Longrightarrow> reaches code s0 s'"

text \<open>
  What holds whenever the \<open>for\<close> loop starts a pass on a validated source: the index
  is inside the source or at its end, the pointer is inside the tape, and the loop stack
  is the test stack of \<open>Validate\<close> for the text before the index, on top of what the
  loop stack held when \<open>Run\<close> was called.
\<close>

definition loop_inv :: "string \<Rightarrow> int list \<Rightarrow> state \<Rightarrow> bool" where
  "loop_inv code base s =
     (0 \<le> index s \<and> index s \<le> int (length code) \<and> in_tape s
      \<and> int (length (tape s)) = TapeLength
      \<and> (\<exists>st. pending code (nat (index s)) = Inr st \<and> loopStack s = st @ base))"

section \<open>The tape\<close>

text \<open>
  C7. From every pointer position inside the tape, \<open>MoveLeft\<close> goes to
  \<open>TapeLength - 1\<close> from 0 and one cell down otherwise, \<open>MoveRight\<close> goes to 0 from
  \<open>TapeLength - 1\<close> and one cell up otherwise, and the pointer is inside the tape
  again afterwards.
\<close>

theorem move_pointer_circular:
  assumes "0 \<le> pointer s" and "pointer s < TapeLength"
  shows "MoveLeft s = s\<lparr>pointer := (if pointer s = 0 then TapeLength - 1 else pointer s - 1)\<rparr>
       \<and> MoveRight s = s\<lparr>pointer := (if pointer s = TapeLength - 1 then 0 else pointer s + 1)\<rparr>
       \<and> 0 \<le> pointer (MoveLeft s) \<and> pointer (MoveLeft s) < TapeLength
       \<and> 0 \<le> pointer (MoveRight s) \<and> pointer (MoveRight s) < TapeLength"
  using assms by (simp add: MoveLeft_def MoveRight_def TapeLength_def)

theorem move_pointer_circular_witness:
  "pointer (MoveLeft \<lparr>tape = replicate 30000 0, pointer = 0, index = 0, loopStack = [],
      stdin = [], stdout = []\<rparr>) = 29999
   \<and> pointer (MoveRight \<lparr>tape = replicate 30000 0, pointer = 0, index = 0, loopStack = [],
      stdin = [], stdout = []\<rparr>) = 1"
  using move_pointer_circular [of "\<lparr>tape = replicate 30000 0, pointer = 0, index = 0,
      loopStack = [], stdin = [], stdout = []\<rparr>"]
  by (simp add: TapeLength_def)

text \<open>
  C8. With the pointer inside the tape, \<open>Increment\<close> and \<open>Decrement\<close> do not panic
  and replace the cell under the pointer by its value plus one and minus one modulo 256;
  255 is followed by 0 and 0 is preceded by 255.
\<close>

theorem cell_arithmetic_wraps:
  assumes "in_tape s"
  shows "(case Increment s of
            Inl p \<Rightarrow> False
          | Inr s' \<Rightarrow> s' = s\<lparr>tape := (tape s)[nat (pointer s) := cell s + 1]\<rparr>
                     \<and> uint (cell s') = (uint (cell s) + 1) mod 256
                     \<and> (cell s = 255 \<longrightarrow> cell s' = 0))
       \<and> (case Decrement s of
            Inl p \<Rightarrow> False
          | Inr s' \<Rightarrow> s' = s\<lparr>tape := (tape s)[nat (pointer s) := cell s - 1]\<rparr>
                     \<and> uint (cell s') = (uint (cell s) - 1) mod 256
                     \<and> (cell s = 0 \<longrightarrow> cell s' = 255))"
proof -
  from assms have "nat (pointer s) < length (tape s)"
    by (simp add: in_tape_def nat_less_iff)
  with assms show ?thesis
    by (simp add: Increment_def Decrement_def set_cell_def cell_def uint_word_ariths)
qed

theorem cell_arithmetic_wraps_witness:
  "in_tape \<lparr>tape = [255, 0], pointer = 0, index = 0, loopStack = [], stdin = [], stdout = []\<rparr>
   \<and> Increment \<lparr>tape = [255, 0], pointer = 0, index = 0, loopStack = [], stdin = [], stdout = []\<rparr>
     = Inr \<lparr>tape = [0, 0], pointer = 0, index = 0, loopStack = [], stdin = [], stdout = []\<rparr>
   \<and> Decrement \<lparr>tape = [255, 0], pointer = 1, index = 0, loopStack = [], stdin = [], stdout = []\<rparr>
     = Inr \<lparr>tape = [255, 255], pointer = 1, index = 0, loopStack = [], stdin = [], stdout = []\<rparr>"
  using cell_arithmetic_wraps [of "\<lparr>tape = [255, 0], pointer = 0, index = 0, loopStack = [],
      stdin = [], stdout = []\<rparr>"]
    cell_arithmetic_wraps [of "\<lparr>tape = [255, 0], pointer = 1, index = 0, loopStack = [],
      stdin = [], stdout = []\<rparr>"]
  by (simp add: in_tape_def cell_def split: sum.splits)

text \<open>
  C9. \<open>ClearTape\<close>, which is what the debug instruction \<open>clear\<close> runs and what
  \<open>Run\<close> calls when asked to clear, sets every cell of the tape to 0 and the pointer
  to 0, and changes neither the index nor the loop stack.
\<close>

theorem clear_resets_tape_and_pointer:
  "ClearTape s = s\<lparr>tape := replicate (length (tape s)) 0, pointer := 0\<rparr>
   \<and> index (ClearTape s) = index s \<and> loopStack (ClearTape s) = loopStack s
   \<and> RunSpecialInstruction [''clear'', ds] s = Some (Inr (ClearTape s))
   \<and> Run_start True s = (ClearTape s)\<lparr>index := 0\<rparr>
   \<and> (int (length (tape s)) = TapeLength \<longrightarrow>
        int (length (tape (ClearTape s))) = TapeLength
        \<and> (\<forall>i < nat TapeLength. tape (ClearTape s) ! i = 0))"
  by (simp add: ClearTape_def RunSpecialInstruction_def Run_start_def map_replicate_const)

theorem clear_resets_tape_and_pointer_witness:
  "ClearTape \<lparr>tape = replicate 30000 9, pointer = 4, index = 3, loopStack = [1], stdin = [], stdout = []\<rparr>
     = \<lparr>tape = replicate 30000 0, pointer = 0, index = 3, loopStack = [1], stdin = [], stdout = []\<rparr>"
  using clear_resets_tape_and_pointer [of "\<lparr>tape = replicate 30000 9, pointer = 4, index = 3,
     loopStack = [1], stdin = [], stdout = []\<rparr>"]
  by simp

section \<open>Run on rejected and on empty sources\<close>

text \<open>
  C2. When \<open>Validate\<close> rejects the source, \<open>Run\<close> returns the error of
  \<open>Validate\<close> and leaves the whole state as it was: tape, pointer, index, loop stack,
  and the input and output streams.
\<close>

theorem run_rejected_source:
  assumes "Validate code = Some err"
  shows "Run code clearTape s = Some (Inr (Some err, s))"
  using assms by (simp add: Run_def)

theorem run_rejected_source_witness:
  "Validate '']'' = Some UnmatchedClose
   \<and> Run '']'' True \<lparr>tape = [7], pointer = 0, index = 3, loopStack = [], stdin = [], stdout = []\<rparr>
     = Some (Inr (Some UnmatchedClose,
         \<lparr>tape = [7], pointer = 0, index = 3, loopStack = [], stdin = [], stdout = []\<rparr>))"
proof -
  have v: "Validate '']'' = Some UnmatchedClose"
    by (simp add: Validate_def Pop_def)
  from run_rejected_source [OF v] v show ?thesis by simp
qed

text \<open>
  C3. The empty source is accepted by \<open>Validate\<close>, and \<open>Run\<close> on it reads
  \<open>code[0]\<close> before any test of the index against the length: it panics instead of
  returning \<open>nil\<close>.
\<close>

theorem run_empty_source_panics:
  "Validate [] = None \<and> Run [] clearTape s = Some (Inl CodeIndexOutOfRange)"
  by (simp add: Run_def Validate_def Length_def Run_loop.simps Run_iter_def dispatch_def Run_start_def)

section \<open>Validate and balanced texts\<close>

lemma Validate_loop_append:
  "Validate_loop i (u @ v) st =
     (case Validate_loop i u st of Inl e \<Rightarrow> Inl e
      | Inr st' \<Rightarrow> Validate_loop (i + int (length u)) v st')"
  by (induction u arbitrary: i st) (auto simp: Push_def Pop_def add.assoc split: list.splits sum.splits)

lemma bal_append: "bal u \<Longrightarrow> bal v \<Longrightarrow> bal (u @ v)"
proof (induction rule: bal.induct)
  case (bal_loop a b)
  then have "bal (CHR ''['' # a @ CHR '']'' # (b @ v))"
    by (intro bal.bal_loop) simp_all
  then show ?case by simp
qed (auto intro: bal.intros)

lemma bal_single: "c \<noteq> CHR ''['' \<Longrightarrow> c \<noteq> CHR '']'' \<Longrightarrow> bal [c]"
  by (simp add: bal.intros)

lemma Validate_loop_bal:
  "bal w \<Longrightarrow> Validate_loop i (w @ r) st = Validate_loop (i + int (length w)) r st"
proof (induction arbitrary: i st r rule: bal.induct)
  case bal_Nil
  show ?case by simp
next
  case (bal_other c w)
  then show ?case by (simp add: add.assoc)
next
  case (bal_loop u v)
  have "Validate_loop i ((CHR ''['' # u @ CHR '']'' # v) @ r) st
      = Validate_loop (i + 1) (u @ (CHR '']'' # v @ r)) (i # st)"
    by (simp add: Push_def)
  also have "\<dots> = Validate_loop (i + 1 + int (length u)) (CHR '']'' # v @ r) (i # st)"
    by (rule bal_loop.IH(1))
  also have "\<dots> = Validate_loop (i + 1 + int (length u) + 1) (v @ r) st"
    by (simp add: Pop_def)
  also have "\<dots> = Validate_loop (i + 1 + int (length u) + 1 + int (length v)) r st"
    by (rule bal_loop.IH(2))
  finally show ?case by (simp add: add.assoc)
qed

lemma between_split:
  "a \<le> k \<Longrightarrow> k \<le> b \<Longrightarrow> between xs a b = between xs a k @ between xs k b"
proof -
  assume ak: "a \<le> k" and kb: "k \<le> b"
  have "take ((k - a) + (b - k)) (drop a xs)
      = take (k - a) (drop a xs) @ take (b - k) (drop (k - a) (drop a xs))"
    by (rule take_add)
  with ak kb show ?thesis by (simp add: between_def)
qed

lemma between_single: "k < length xs \<Longrightarrow> between xs k (Suc k) = [xs ! k]"
  by (simp add: between_def take_Suc_conv_app_nth [of 0, simplified] hd_drop_conv_nth take_Suc)

lemma between_0: "between xs 0 n = take n xs"
  by (simp add: between_def)

lemma between_empty: "between xs a a = []"
  by (simp add: between_def)

lemma pending_Suc:
  "m < length code \<Longrightarrow> pending code (Suc m) =
     (case pending code m of Inl e \<Rightarrow> Inl e
      | Inr st \<Rightarrow> Validate_loop (int m) [code ! m] st)"
  by (simp add: pending_def take_Suc_conv_app_nth Validate_loop_append split: sum.splits)

lemma pending_0: "pending code 0 = Inr []"
  by (simp add: pending_def)


lemma bal_bracketed: "bal u \<Longrightarrow> bal (CHR ''['' # u @ [CHR '']''])"
  using bal.bal_loop [of u "[]"] by (simp add: bal.bal_Nil)

lemma between_loop:
  assumes "k < m" and "m < length xs"
  shows "between xs k (Suc m) = xs ! k # between xs (Suc k) m @ [xs ! m]"
proof -
  have "between xs k (Suc m) = between xs k (Suc k) @ between xs (Suc k) (Suc m)"
    using assms by (intro between_split) simp_all
  also have "between xs (Suc k) (Suc m) = between xs (Suc k) m @ between xs m (Suc m)"
    using assms by (intro between_split) simp_all
  finally show ?thesis using assms by (simp add: between_single)
qed

lemma between_snoc:
  assumes "a \<le> m" and "m < length xs"
  shows "between xs a (Suc m) = between xs a m @ [xs ! m]"
proof -
  have "between xs a (Suc m) = between xs a m @ between xs m (Suc m)"
    using assms by (intro between_split) simp_all
  then show ?thesis using assms by (simp add: between_single)
qed

lemma pending_structure:
  "n \<le> length code \<Longrightarrow> pending code n = Inr st \<Longrightarrow>
     (st = [] \<longrightarrow> bal (take n code)) \<and>
     (\<forall>p rest. st = p # rest \<longrightarrow> 0 \<le> p \<and> nat p < n \<and> code ! nat p = CHR ''[''
        \<and> pending code (nat p) = Inr rest \<and> bal (between code (Suc (nat p)) n))"
proof (induction n arbitrary: st rule: less_induct)
  case (less n)
  show ?case
  proof (cases n)
    case 0
    with less.prems show ?thesis by (simp add: pending_0 bal.bal_Nil)
  next
    case (Suc m)
    with less.prems have m: "m < length code" by simp
    define c where "c = code ! m"
    from less.prems(2) Suc m obtain st' where
      pm: "pending code m = Inr st'" and step: "Validate_loop (int m) [c] st' = Inr st"
      by (auto simp: pending_Suc c_def split: sum.splits)
    have IHm: "(st' = [] \<longrightarrow> bal (take m code)) \<and>
       (\<forall>p rest. st' = p # rest \<longrightarrow> 0 \<le> p \<and> nat p < m \<and> code ! nat p = CHR ''[''
          \<and> pending code (nat p) = Inr rest \<and> bal (between code (Suc (nat p)) m))"
      using less.IH [of m st'] Suc m pm by simp
    have tk: "take (Suc m) code = take m code @ [c]"
      using m by (simp add: take_Suc_conv_app_nth c_def)
    consider (opn) "c = CHR ''[''" | (cls) "c = CHR '']''" | (oth) "c \<noteq> CHR ''[''" "c \<noteq> CHR '']''"
      by blast
    then show ?thesis
    proof cases
      case opn
      with step have st: "st = int m # st'" by (simp add: Push_def)
      with opn pm Suc show ?thesis by (simp add: c_def between_empty bal.bal_Nil)
    next
      case cls
      with step obtain q where st': "st' = q # st"
        by (auto simp: Pop_def split: list.splits)
      with IHm have q: "0 \<le> q" "nat q < m" "code ! nat q = CHR ''[''"
        "pending code (nat q) = Inr st" "bal (between code (Suc (nat q)) m)"
        by simp_all
      have IHq: "(st = [] \<longrightarrow> bal (take (nat q) code)) \<and>
       (\<forall>p rest. st = p # rest \<longrightarrow> 0 \<le> p \<and> nat p < nat q \<and> code ! nat p = CHR ''[''
          \<and> pending code (nat p) = Inr rest \<and> bal (between code (Suc (nat p)) (nat q)))"
        using less.IH [of "nat q" st] q Suc m by simp
      have lp: "between code (nat q) (Suc m) = CHR ''['' # between code (Suc (nat q)) m @ [CHR '']'']"
        using between_loop [of "nat q" m code] q m cls by (simp add: c_def)
      have ballp: "bal (between code (nat q) (Suc m))"
        unfolding lp using q(5) by (rule bal_bracketed)
      have ext: "a \<le> nat q \<Longrightarrow> between code a (Suc m) = between code a (nat q) @ between code (nat q) (Suc m)" for a
        using q(2) by (intro between_split) simp_all
      show ?thesis
      proof (intro conjI impI allI)
        assume "st = []"
        with IHq have "bal (take (nat q) code)" by simp
        with ballp have "bal (between code 0 (nat q) @ between code (nat q) (Suc m))"
          by (simp add: between_0 bal_append)
        then show "bal (take n code)" using ext [of 0] Suc by (simp add: between_0)
      next
        fix p rest assume pr: "st = p # rest"
        with IHq have p: "0 \<le> p" "nat p < nat q" "code ! nat p = CHR ''[''"
          "pending code (nat p) = Inr rest" "bal (between code (Suc (nat p)) (nat q))"
          by simp_all
        from p show "0 \<le> p" "code ! nat p = CHR ''[''" "pending code (nat p) = Inr rest"
          by simp_all
        from p(2) q(2) Suc show "nat p < n" by linarith
        have "bal (between code (Suc (nat p)) (nat q) @ between code (nat q) (Suc m))"
          using p(5) ballp by (rule bal_append)
        then show "bal (between code (Suc (nat p)) n)"
          using ext [of "Suc (nat p)"] p(2) Suc by simp
      qed
    next
      case oth
      with step have st: "st = st'" by simp
      have bc: "bal [c]" using oth by (rule bal_single)
      show ?thesis
      proof (intro conjI impI allI)
        assume "st = []"
        with st IHm have "bal (take m code)" by simp
        then show "bal (take n code)" using bc Suc tk by (simp add: bal_append)
      next
        fix p rest assume pr: "st = p # rest"
        with st have "st' = p # rest" by simp
        with IHm have p: "0 \<le> p" "nat p < m" "code ! nat p = CHR ''[''"
          "pending code (nat p) = Inr rest" "bal (between code (Suc (nat p)) m)"
          by blast+
        from p show "0 \<le> p" "code ! nat p = CHR ''[''" "pending code (nat p) = Inr rest"
          by simp_all
        from p Suc show "nat p < n" by simp
        have "between code (Suc (nat p)) (Suc m) = between code (Suc (nat p)) m @ [c]"
          using between_snoc [of "Suc (nat p)" m code] p(2) m by (simp add: c_def)
        then show "bal (between code (Suc (nat p)) n)"
          using p(5) bc Suc by (simp add: bal_append)
      qed
    qed
  qed
qed

lemma pending_full: "pending code (length code) = Validate_loop 0 code []"
  by (simp add: pending_def)

lemma pending_prefix_ok:
  assumes "pending code n = Inr st" and "m \<le> n" and "n \<le> length code"
  shows "\<exists>st'. pending code m = Inr st'"
proof -
  have "take n code = take m code @ between code m n"
    using between_split [of 0 m n code] assms by (simp add: between_0)
  with assms(1) show ?thesis
    by (auto simp: pending_def Validate_loop_append split: sum.splits)
qed

lemma pending_error_first:
  "pending code n = Inl e \<Longrightarrow> n \<le> length code \<Longrightarrow>
     e = UnmatchedClose \<and> (\<exists>m<n. pending code m = Inr [] \<and> code ! m = CHR '']'')"
proof (induction n)
  case 0
  then show ?case by (simp add: pending_0)
next
  case (Suc m)
  then have m: "m < length code" by simp
  show ?case
  proof (cases "pending code m")
    case (Inl e')
    with Suc.prems m have "e' = e" by (simp add: pending_Suc)
    with Inl Suc.IH m show ?thesis by (auto simp: less_Suc_eq)
  next
    case (Inr st)
    with Suc.prems m have "Validate_loop (int m) [code ! m] st = Inl e"
      by (simp add: pending_Suc)
    then have "e = UnmatchedClose \<and> st = [] \<and> code ! m = CHR '']''"
      by (auto simp: Push_def Pop_def split: if_splits list.splits)
    with Inr show ?thesis by auto
  qed
qed

lemma excess_snoc:
  "excess (w @ [c]) = excess w + (if c = CHR ''['' then 1 else if c = CHR '']'' then - 1 else 0)"
  by (simp add: excess_def)

lemma pending_excess:
  "pending code n = Inr st \<Longrightarrow> n \<le> length code \<Longrightarrow> int (length st) = excess (take n code)"
proof (induction n arbitrary: st)
  case 0
  then show ?case by (simp add: pending_0 excess_def)
next
  case (Suc m)
  then have m: "m < length code" by simp
  from Suc.prems m obtain st' where pm: "pending code m = Inr st'"
    and step: "Validate_loop (int m) [code ! m] st' = Inr st"
    by (auto simp: pending_Suc split: sum.splits)
  from Suc.IH [OF pm] m have "int (length st') = excess (take m code)" by simp
  with step m show ?case
    by (auto simp: take_Suc_conv_app_nth excess_snoc Push_def Pop_def split: if_splits list.splits)
qed

text \<open>
  C1. \<open>Validate\<close> returns \<open>nil\<close> exactly on the balanced texts. It returns the
  unmatched-close error exactly when some \<open>]\<close> comes after a balanced text, that is
  with no \<open>[\<close> pending, whatever follows it; and the unmatched-open error exactly when
  no prefix has more \<open>]\<close> than \<open>[\<close> and the whole text has more \<open>[\<close> than \<open>]\<close>.
\<close>

theorem validate_iff_balanced:
  "(Validate code = None \<longleftrightarrow> bal code)
   \<and> (Validate code = Some UnmatchedClose \<longleftrightarrow> (\<exists>u v. code = u @ CHR '']'' # v \<and> bal u))
   \<and> (Validate code = Some UnmatchedOpen \<longleftrightarrow>
        (\<forall>n \<le> length code. 0 \<le> excess (take n code)) \<and> 0 < excess code)"
proof -
  have ok: "Validate code = None \<longleftrightarrow> bal code"
  proof
  assume "Validate code = None"
  then have "pending code (length code) = Inr []"
    by (auto simp: Validate_def pending_full Length_def split: sum.splits if_splits)
  from pending_structure [OF _ this] show "bal code" by simp
next
  assume "bal code"
  from Validate_loop_bal [OF this, of 0 "[]" "[]"] show "Validate code = None"
    by (simp add: Validate_def Length_def)
  qed
  have cls: "Validate code = Some UnmatchedClose \<longleftrightarrow> (\<exists>u v. code = u @ CHR '']'' # v \<and> bal u)"
  proof
  assume "Validate code = Some UnmatchedClose"
  then obtain e where "pending code (length code) = Inl e"
    by (auto simp: Validate_def pending_full Length_def split: sum.splits if_splits)
  from pending_error_first [OF this] obtain m where m: "m < length code"
    "pending code m = Inr []" "code ! m = CHR '']''" by auto
  from pending_structure [OF _ m(2)] m(1) have "bal (take m code)" by simp
  moreover have "code = take m code @ CHR '']'' # drop (Suc m) code"
    using m(1,3) id_take_nth_drop [of m code] by simp
  ultimately show "\<exists>u v. code = u @ CHR '']'' # v \<and> bal u" by blast
next
  assume "\<exists>u v. code = u @ CHR '']'' # v \<and> bal u"
  then obtain u v where c: "code = u @ CHR '']'' # v" and u: "bal u" by blast
  from Validate_loop_bal [OF u, of 0 "CHR '']'' # v" "[]"] c
  show "Validate code = Some UnmatchedClose"
    by (simp add: Validate_def Pop_def)
  qed
  have opn: "Validate code = Some UnmatchedOpen \<longleftrightarrow>
        (\<forall>n \<le> length code. 0 \<le> excess (take n code)) \<and> 0 < excess code"
  proof
  assume a: "Validate code = Some UnmatchedOpen"
  have "pending code (length code) \<noteq> Inl UnmatchedOpen"
    using pending_error_first [of code "length code" UnmatchedOpen] by auto
  with a obtain st where st: "pending code (length code) = Inr st" "st \<noteq> []"
    by (auto simp: Validate_def pending_full Length_def split: sum.splits if_splits)
  show "(\<forall>n \<le> length code. 0 \<le> excess (take n code)) \<and> 0 < excess code"
  proof (intro conjI allI impI)
    fix n assume n: "n \<le> length code"
    from pending_prefix_ok [OF st(1) n] obtain st' where "pending code n = Inr st'" by auto
    from pending_excess [OF this n] show "0 \<le> excess (take n code)" by simp
  next
    from st(2) have "0 < int (length st)" by simp
    with pending_excess [OF st(1)] show "0 < excess code" by simp
  qed
next
  assume a: "(\<forall>n \<le> length code. 0 \<le> excess (take n code)) \<and> 0 < excess code"
  show "Validate code = Some UnmatchedOpen"
  proof (cases "pending code (length code)")
    case (Inl e)
    from pending_error_first [OF this] obtain m where m: "m < length code"
      "pending code m = Inr []" "code ! m = CHR '']''" by auto
    from pending_excess [OF m(2)] m(1) have "excess (take m code) = 0" by simp
    with m have "excess (take (Suc m) code) = - 1"
      by (simp add: take_Suc_conv_app_nth excess_snoc)
    moreover from a m(1) have "0 \<le> excess (take (Suc m) code)" by (simp add: Suc_le_eq)
    ultimately show ?thesis by simp
  next
    case (Inr st)
    from pending_excess [OF this] a have "0 < int (length st)" by simp
    then have "st \<noteq> []" by auto
    with Inr show ?thesis by (simp add: Validate_def pending_full [symmetric] Length_def)
  qed
  qed
  from ok cls opn show ?thesis by blast
qed

theorem validate_iff_balanced_witness:
  "bal ''[+[-]]'' \<and> Validate ''[]]+['' = Some UnmatchedClose
   \<and> 0 < excess ''[[]''"
proof -
  have a: "Validate ''[+[-]]'' = None"
    by (simp add: Validate_def Push_def Pop_def Length_def)
  have b: "''[]]+['' = ''[]'' @ CHR '']'' # ''+['' \<and> bal ''[]''"
    using bal.bal_loop [OF bal.bal_Nil bal.bal_Nil] by simp
  have c: "Validate ''[[]'' = Some UnmatchedOpen"
    by (simp add: Validate_def Push_def Pop_def Length_def)
  from validate_iff_balanced [of "''[+[-]]''"] a have "bal ''[+[-]]''" by simp
  moreover from validate_iff_balanced [of "''[]]+[''"] b
  have "Validate ''[]]+['' = Some UnmatchedClose" by blast
  moreover from validate_iff_balanced [of "''[[]''"] c have "0 < excess ''[[]''" by simp
  ultimately show ?thesis by simp
qed

section \<open>The debug print window\<close>

text \<open>
  C10. With the pointer on cell 0 the instruction \<open>print\<close> calls \<open>FormatCells\<close> with
  the window from \<open>-5\<close> to \<open>5\<close>. The negative start is moved to
  \<open>TapeLength + start - 1\<close>, which is 29994 and not 29995: the window holds twelve
  cells, six of them before the pointer, instead of the eleven cells around it.
\<close>

theorem print_window_at_pointer_zero:
  "FormatCells_window (replicate 30000 0) (0 - 5) (0 + 5) =
     Some (Inr [(29994, 0), (29995, 0), (29996, 0), (29997, 0), (29998, 0), (29999, 0),
                (0, 0), (1, 0), (2, 0), (3, 0), (4, 0), (5, 0)])"
  by (simp add: FormatCells_window_def TapeLength_def FormatCells_loop.simps)

section \<open>Skipping a loop\<close>

lemma drop_eq_ConsD:
  "drop k xs = c # rest \<Longrightarrow> k < length xs \<and> xs ! k = c \<and> drop (Suc k) xs = rest"
proof -
  assume a: "drop k xs = c # rest"
  then have k: "k < length xs" by (cases "k < length xs") simp_all
  from a k have "xs ! k = c" by (metis nth_via_drop)
  moreover from a have "drop (Suc k) xs = rest"
    by (metis drop_Suc tl_drop list.sel(3))
  ultimately show ?thesis using k by simp
qed

lemma skip_loop_step:
  assumes "drop k code = c # rest"
  shows "skip_loop code (int k - 1) st =
     (if c = CHR ''['' then skip_loop code (int (Suc k) - 1) (1 # st)
      else if c = CHR '']'' then
        (if tl st = [] then Inr (int k) else skip_loop code (int (Suc k) - 1) (tl st))
      else skip_loop code (int (Suc k) - 1) st)"
proof -
  from drop_eq_ConsD [OF assms] have k: "k < length code" "code ! k = c" by simp_all
  show ?thesis
    by (subst skip_loop.simps)
       (use k in \<open>auto simp: Push_def Pop_def IsEmpty_def Let_def split: list.splits\<close>)
qed

lemma skip_loop_bal:
  "bal w \<Longrightarrow> drop k code = w @ r \<Longrightarrow> st \<noteq> [] \<Longrightarrow>
     skip_loop code (int k - 1) st = skip_loop code (int (k + length w) - 1) st"
proof (induction arbitrary: k st r rule: bal.induct)
  case bal_Nil
  show ?case by simp
next
  case (bal_other c w)
  from bal_other.prems have d: "drop k code = c # (w @ r)" by simp
  from drop_eq_ConsD [OF d] have d': "drop (Suc k) code = w @ r" by simp
  have "skip_loop code (int k - 1) st = skip_loop code (int (Suc k) - 1) st"
    using skip_loop_step [OF d] bal_other.hyps by simp
  also have "\<dots> = skip_loop code (int (Suc k + length w) - 1) st"
    using bal_other.IH [OF d' bal_other.prems(2)] .
  finally show ?case by simp
next
  case (bal_loop u v)
  from bal_loop.prems have d: "drop k code = CHR ''['' # (u @ CHR '']'' # v @ r)" by simp
  from drop_eq_ConsD [OF d] have d1: "drop (Suc k) code = u @ (CHR '']'' # v @ r)" by simp
  then have "drop (length u) (drop (Suc k) code) = CHR '']'' # (v @ r)" by simp
  then have d2: "drop (Suc k + length u) code = CHR '']'' # (v @ r)"
    by (simp add: add.commute)
  from drop_eq_ConsD [OF d2] have d3: "drop (Suc (Suc k + length u)) code = v @ r" by simp
  have "skip_loop code (int k - 1) st = skip_loop code (int (Suc k) - 1) (1 # st)"
    using skip_loop_step [OF d] by simp
  also have "\<dots> = skip_loop code (int (Suc k + length u) - 1) (1 # st)"
    using bal_loop.IH(1) [OF d1, of "1 # st"] by simp
  also have "\<dots> = skip_loop code (int (Suc (Suc k + length u)) - 1) st"
    using skip_loop_step [OF d2, of "1 # st"] bal_loop.prems(2) by simp
  also have "\<dots> = skip_loop code (int (Suc (Suc k + length u) + length v) - 1) st"
    using bal_loop.IH(2) [OF d3 bal_loop.prems(2)] .
  finally show ?case by (simp add: add.commute add.left_commute)
qed

lemma bal_open_has_close:
  "bal w \<Longrightarrow> w = u @ CHR ''['' # v \<Longrightarrow> \<exists>a b. v = a @ CHR '']'' # b \<and> bal a"
proof (induction arbitrary: u v rule: bal.induct)
  case bal_Nil
  then show ?case by simp
next
  case (bal_other c w)
  then show ?case by (cases u) auto
next
  case (bal_loop a b)
  show ?case
  proof (cases u)
    case Nil
    with bal_loop.prems bal_loop.hyps show ?thesis by auto
  next
    case (Cons x u')
    with bal_loop.prems have eq: "a @ CHR '']'' # b = u' @ CHR ''['' # v" by simp
    then consider (ina) t where "a = u' @ CHR ''['' # t" "v = t @ CHR '']'' # b"
      | (inb) u'' where "u' = a @ CHR '']'' # u''" "b = u'' @ CHR ''['' # v"
      by (auto simp: append_eq_append_conv2 Cons_eq_append_conv append_eq_Cons_conv)
    then show ?thesis
    proof cases
      case ina
      from bal_loop.IH(1) [OF ina(1)] obtain a' b' where "t = a' @ CHR '']'' # b'" "bal a'"
        by blast
      with ina(2) show ?thesis by auto
    next
      case inb
      from bal_loop.IH(2) [OF inb(2)] show ?thesis .
    qed
  qed
qed

lemma Validate_None_pending: "Validate code = None \<longleftrightarrow> pending code (length code) = Inr []"
  by (auto simp: Validate_def pending_full Length_def split: sum.splits if_splits)

lemma Validate_None_bal: "Validate code = None \<Longrightarrow> bal code"
  using pending_structure [of "length code" code "[]"] by (simp add: Validate_None_pending)

lemma bal_pending: "bal w \<Longrightarrow> pending w (length w) = Inr []"
  using Validate_loop_bal [of w 0 "[]" "[]"] by (simp add: pending_full)

lemma bal_excess_prefix: "bal w \<Longrightarrow> 0 \<le> excess (take n w)"
proof -
  assume b: "bal w"
  have "take n w = take (min n (length w)) w" by (cases "n \<le> length w") (simp_all add: min_def)
  moreover have "0 \<le> excess (take (min n (length w)) w)"
  proof -
    from pending_prefix_ok [OF bal_pending [OF b], of "min n (length w)"]
    obtain st where "pending w (min n (length w)) = Inr st" by auto
    from pending_excess [OF this] show ?thesis by simp
  qed
  ultimately show ?thesis by simp
qed

lemma bal_excess: "bal w \<Longrightarrow> excess w = 0"
  using pending_excess [OF bal_pending, of w] by simp

lemma excess_Nil: "excess [] = 0"
  by (simp add: excess_def)

lemma excess_Cons:
  "excess (c # w) = (if c = CHR ''['' then 1 else if c = CHR '']'' then - 1 else 0) + excess w"
  by (simp add: excess_def)

lemma excess_append: "excess (u @ v) = excess u + excess v"
  by (induction u) (simp_all add: excess_Cons, simp add: excess_def)

lemma validated_open_matching:
  assumes v: "Validate code = None" and i: "i < length code" and c: "code ! i = CHR ''[''"
  shows "\<exists>j. matching code i j \<and> skip_loop code (int i) [1] = Inr (int j)
            \<and> pending code (Suc j) = pending code i
            \<and> between code i (Suc j) = CHR ''['' # between code (Suc i) j @ [CHR '']'']"
proof -
  have split: "code = take i code @ CHR ''['' # drop (Suc i) code"
    using i c id_take_nth_drop [of i code] by simp
  from bal_open_has_close [OF Validate_None_bal [OF v] split]
  obtain a b where ab: "drop (Suc i) code = a @ CHR '']'' # b" and a: "bal a" by blast
  define j where "j = Suc i + length a"
  from ab have "drop (length a) (drop (Suc i) code) = CHR '']'' # b" by simp
  then have dj: "drop j code = CHR '']'' # b" by (simp add: j_def add.commute)
  from drop_eq_ConsD [OF dj] have jl: "j < length code" and cj: "code ! j = CHR '']''"
    by simp_all
  have btw: "between code (Suc i) j = a"
    using ab by (simp add: between_def j_def)
  have ij: "i < j" by (simp add: j_def)
  have m: "matching code i j"
    using ij jl c cj btw a by (simp add: matching_def)
  have "skip_loop code (int (Suc i) - 1) [1] = skip_loop code (int (Suc i + length a) - 1) [1]"
    using skip_loop_bal [OF a ab, of "[1]"] by simp
  also have "\<dots> = Inr (int j)"
    using skip_loop_step [OF dj, of "[1]"] by (simp add: j_def)
  finally have sk: "skip_loop code (int i) [1] = Inr (int j)" by simp
  have lp: "between code i (Suc j) = CHR ''['' # between code (Suc i) j @ [CHR '']'']"
    using between_loop [OF ij jl] c cj by simp
  have "take (Suc j) code = take i code @ between code i (Suc j)"
    using between_split [of 0 i "Suc j" code] ij by (simp add: between_0)
  moreover have "bal (between code i (Suc j))"
    unfolding lp btw using a by (rule bal_bracketed)
  ultimately have "pending code (Suc j) = pending code i"
    using Validate_loop_bal [of "between code i (Suc j)" _ "[]"]
    by (simp add: pending_def Validate_loop_append split: sum.splits)
  with m sk lp show ?thesis by blast
qed

text \<open>
  C4. On a validated source, a \<open>[\<close> dispatched on a zero cell leaves the index on the
  matching \<open>]\<close>, so that the pass ends just behind the loop and nothing else of the
  state changes: counted from the \<open>[\<close>, the \<open>[\<close> outnumber the \<open>]\<close> at every
  position before that \<open>]\<close> and are level with them there. On a non-zero cell the
  position of the \<open>[\<close> is pushed on the loop stack and the pass ends on the next
  character.
\<close>

theorem open_loop_skips_or_enters:
  assumes "Validate code = None" and "0 \<le> index s" and "index s < int (length code)"
    and "code ! nat (index s) = CHR ''[''" and "in_tape s"
  shows "(cell s = 0 \<longrightarrow>
           (\<exists>j. matching code (nat (index s)) j
              \<and> (\<forall>k. nat (index s) \<le> k \<and> k < j \<longrightarrow> 0 < excess (between code (nat (index s)) (Suc k)))
              \<and> excess (between code (nat (index s)) (Suc j)) = 0
              \<and> dispatch code s = Some (Inr (s\<lparr>index := int j\<rparr>))
              \<and> Run_iter code s = Some (Inr (s\<lparr>index := int j + 1\<rparr>))))
       \<and> (cell s \<noteq> 0 \<longrightarrow>
             dispatch code s = Some (Inr (s\<lparr>loopStack := index s # loopStack s\<rparr>))
           \<and> Run_iter code s
               = Some (Inr (s\<lparr>loopStack := index s # loopStack s, index := index s + 1\<rparr>)))"
proof (intro conjI impI)
  define i where "i = nat (index s)"
  assume z: "cell s = 0"
  from assms have i: "i < length code" "code ! i = CHR ''[''" "index s = int i"
    by (simp_all add: i_def)
  from validated_open_matching [OF assms(1) i(1,2)] obtain j where
    m: "matching code i j" and sk: "skip_loop code (int i) [1] = Inr (int j)"
    and lp: "between code i (Suc j) = CHR ''['' # between code (Suc i) j @ [CHR '']'']"
    by blast
  from m have ij: "i < j" and jl: "j < length code" and b: "bal (between code (Suc i) j)"
    by (simp_all add: matching_def)
  have d: "dispatch code s = Some (Inr (s\<lparr>index := int j\<rparr>))"
    using assms z sk i by (simp add: dispatch_def OpenLoop_def Push_def)
  then have r: "Run_iter code s = Some (Inr (s\<lparr>index := int j + 1\<rparr>))"
    by (simp add: Run_iter_def)
  have e0: "excess (between code i (Suc j)) = 0"
    unfolding lp using bal_excess [OF b] by (simp add: excess_Cons excess_append excess_Nil)
  have pos: "0 < excess (between code i (Suc k))" if k: "i \<le> k" "k < j" for k
  proof -
    have "between code i (Suc k) = between code i (Suc i) @ between code (Suc i) (Suc k)"
      using k by (intro between_split) simp_all
    moreover have "between code (Suc i) (Suc k) = take (k - i) (between code (Suc i) j)"
      using k by (simp add: between_def min_def)
    ultimately have "excess (between code i (Suc k))
        = 1 + excess (take (k - i) (between code (Suc i) j))"
      using i by (simp add: between_single excess_Cons)
    with bal_excess_prefix [OF b, of "k - i"] show ?thesis by simp
  qed
  show "\<exists>j. matching code (nat (index s)) j
              \<and> (\<forall>k. nat (index s) \<le> k \<and> k < j \<longrightarrow> 0 < excess (between code (nat (index s)) (Suc k)))
              \<and> excess (between code (nat (index s)) (Suc j)) = 0
              \<and> dispatch code s = Some (Inr (s\<lparr>index := int j\<rparr>))
              \<and> Run_iter code s = Some (Inr (s\<lparr>index := int j + 1\<rparr>))"
    using m pos e0 d r unfolding i_def [symmetric] by blast
next
  assume nz: "cell s \<noteq> 0"
  then show "dispatch code s = Some (Inr (s\<lparr>loopStack := index s # loopStack s\<rparr>))"
    using assms by (simp add: dispatch_def OpenLoop_def Push_def)
  then show "Run_iter code s
      = Some (Inr (s\<lparr>loopStack := index s # loopStack s, index := index s + 1\<rparr>))"
    by (simp add: Run_iter_def)
qed

theorem open_loop_skips_or_enters_witness:
  "(\<exists>j. matching ''[+]'' 0 j
       \<and> Run_iter ''[+]'' \<lparr>tape = replicate 30000 0, pointer = 0, index = 0, loopStack = [], stdin = [],
       stdout = []\<rparr>
         = Some (Inr (\<lparr>tape = replicate 30000 0, pointer = 0, index = 0, loopStack = [], stdin = [],
       stdout = []\<rparr>\<lparr>index := int j + 1\<rparr>)))
   \<and> Run_iter ''[+]'' \<lparr>tape = (replicate 30000 0)[0 := 1], pointer = 0, index = 0, loopStack = [], stdin = [],
       stdout = []\<rparr>
       = Some (Inr \<lparr>tape = (replicate 30000 0)[0 := 1], pointer = 0, index = 1, loopStack = [0], stdin = [],
       stdout = []\<rparr>)"
proof -
  have v: "Validate ''[+]'' = None"
    by (simp add: Validate_def Push_def Pop_def Length_def)
  have a: "\<exists>j. matching ''[+]'' 0 j
       \<and> Run_iter ''[+]'' \<lparr>tape = replicate 30000 0, pointer = 0, index = 0, loopStack = [], stdin = [],
       stdout = []\<rparr>
         = Some (Inr (\<lparr>tape = replicate 30000 0, pointer = 0, index = 0, loopStack = [], stdin = [],
       stdout = []\<rparr>\<lparr>index := int j + 1\<rparr>))"
    using open_loop_skips_or_enters [OF v, of "\<lparr>tape = replicate 30000 0, pointer = 0, index = 0, loopStack = [], stdin = [],
       stdout = []\<rparr>"]
    by (simp add: in_tape_def cell_def) blast
  have b: "Run_iter ''[+]'' \<lparr>tape = (replicate 30000 0)[0 := 1], pointer = 0, index = 0, loopStack = [], stdin = [],
       stdout = []\<rparr>
       = Some (Inr \<lparr>tape = (replicate 30000 0)[0 := 1], pointer = 0, index = 1, loopStack = [0], stdin = [],
       stdout = []\<rparr>)"
    using open_loop_skips_or_enters [OF v, of "\<lparr>tape = (replicate 30000 0)[0 := 1], pointer = 0, index = 0, loopStack = [], stdin = [],
       stdout = []\<rparr>"]
    by (simp add: in_tape_def cell_def)
  from a b show ?thesis by blast
qed

section \<open>The loop stack during a run\<close>

lemma RunSpecialInstruction_frame:
  assumes "RunSpecialInstruction inst s = Some (Inr s1)" and "in_tape s"
  shows "index s1 = index s \<and> loopStack s1 = loopStack s
       \<and> length (tape s1) = length (tape s) \<and> in_tape s1"
  using assms
  by (auto simp: RunSpecialInstruction_def ClearTape_def in_tape_def
           split: if_splits option.splits sum.splits)

lemma dispatch_other:
  assumes d: "dispatch code s = Some (Inr s1)"
    and c: "code ! nat (index s) \<noteq> CHR ''[''" "code ! nat (index s) \<noteq> CHR '']''"
    and t: "in_tape s" "int (length (tape s)) = TapeLength"
  shows "index s1 = index s \<and> loopStack s1 = loopStack s
       \<and> length (tape s1) = length (tape s) \<and> in_tape s1"
proof -
  from d have r: "0 \<le> index s \<and> index s < int (length code)"
    by (simp add: dispatch_def split: if_splits)
  define ch where "ch = code ! nat (index s)"
  consider "ch = CHR ''<''" | "ch = CHR ''>''" | "ch = CHR ''-''" | "ch = CHR ''+''"
    | "ch = CHR ''.''" | "ch = CHR '',''" | "ch = CHR ''!''"
    | "ch \<notin> {CHR ''<'', CHR ''>'', CHR ''-'', CHR ''+'', CHR ''.'', CHR '','', CHR ''!''}"
    by blast
  then show ?thesis
  proof cases
    case 1
    with d r t show ?thesis
      by (auto simp: dispatch_def ch_def [symmetric] MoveLeft_def in_tape_def TapeLength_def
               split: if_splits)
  next
    case 2
    with d r t show ?thesis
      by (auto simp: dispatch_def ch_def [symmetric] MoveRight_def in_tape_def TapeLength_def
               split: if_splits)
  next
    case 3
    with d r t show ?thesis
      by (auto simp: dispatch_def ch_def [symmetric] Decrement_def in_tape_def set_cell_def
               split: if_splits)
  next
    case 4
    with d r t show ?thesis
      by (auto simp: dispatch_def ch_def [symmetric] Increment_def in_tape_def set_cell_def
               split: if_splits)
  next
    case 5
    with d r t show ?thesis
      by (auto simp: dispatch_def ch_def [symmetric] Output_def in_tape_def
               split: if_splits)
  next
    case 6
    with d r t show ?thesis
      by (auto simp: dispatch_def ch_def [symmetric] Input_def in_tape_def set_cell_def
               split: if_splits list.splits)
  next
    case 7
    with d r have "FindStringSubmatch (drop (nat (index s)) code) = [] \<and> s1 = s
      \<or> (\<exists>inst. RunSpecialInstruction inst s = Some (Inr s1))"
      by (auto simp: dispatch_def ch_def [symmetric] split: list.splits)
    with t RunSpecialInstruction_frame show ?thesis by blast
  next
    case 8
    with d r c have "s1 = s"
      by (simp add: dispatch_def ch_def [symmetric])
    with t show ?thesis by simp
  qed
qed

lemma pending_step_ok:
  assumes "Validate code = None" and "i < length code" and "pending code i = Inr st"
  shows "\<exists>st1. pending code (Suc i) = Inr st1 \<and> Validate_loop (int i) [code ! i] st = Inr st1"
proof -
  from assms(1) have "pending code (length code) = Inr []" by (simp add: Validate_None_pending)
  from pending_prefix_ok [OF this, of "Suc i"] assms(2)
  obtain st1 where "pending code (Suc i) = Inr st1" by auto
  with assms(2,3) show ?thesis by (simp add: pending_Suc)
qed

text \<open>What the case \<open>]\<close> does in a pass that starts in a state of the invariant.\<close>

lemma close_loop_step:
  assumes v: "Validate code = None" and inv: "loop_inv code base s"
    and lt: "index s < int (length code)" and c: "code ! nat (index s) = CHR '']''"
  shows "\<exists>p rest. loopStack s = p # rest \<and> 0 \<le> p \<and> matching code (nat p) (nat (index s))
           \<and> (\<exists>st1. pending code (nat p) = Inr st1 \<and> pending code (Suc (nat (index s))) = Inr st1
                 \<and> rest = st1 @ base)
           \<and> dispatch code s = Some (Inr (s\<lparr>loopStack := rest,
                index := (if cell s \<noteq> 0 then p - 1 else index s)\<rparr>))"
proof -
  define i where "i = nat (index s)"
  from inv lt have i: "i < length code" "index s = int i" and t: "in_tape s"
    by (auto simp: loop_inv_def i_def)
  from inv obtain st where st: "pending code i = Inr st" "loopStack s = st @ base"
    by (auto simp: loop_inv_def i_def)
  from pending_step_ok [OF v i(1) st(1)] c obtain st1 q where
    p1: "pending code (Suc i) = Inr st1" and q: "st = q # st1"
    by (auto simp: i_def Pop_def split: list.splits)
  from pending_structure [of i code st] i(1) st(1) q
  have qs: "0 \<le> q" "nat q < i" "code ! nat q = CHR ''[''" "pending code (nat q) = Inr st1"
      "bal (between code (Suc (nat q)) i)"
    by simp_all
  have m: "matching code (nat q) i"
    using qs i(1) c by (simp add: matching_def i_def)
  have d: "dispatch code s = Some (Inr (s\<lparr>loopStack := st1 @ base,
                index := (if cell s \<noteq> 0 then q - 1 else index s)\<rparr>))"
    using i c t st(2) q qs(1)
    by (simp add: dispatch_def CloseLoop_def Pop_def i_def [symmetric])
  from st(2) q m qs(1,4) p1 d show ?thesis
    unfolding i_def [symmetric] by auto
qed

lemma loop_inv_step:
  assumes v: "Validate code = None" and inv: "loop_inv code base s"
    and it: "Run_iter code s = Some (Inr s')"
  shows "loop_inv code base s'"
proof -
  from it obtain s1 where d: "dispatch code s = Some (Inr s1)"
    and s': "s' = s1\<lparr>index := index s1 + 1\<rparr>"
    by (auto simp: Run_iter_def split: option.splits sum.splits)
  from d have lt: "index s < int (length code)"
    by (simp add: dispatch_def split: if_splits)
  define i where "i = nat (index s)"
  from inv lt have i: "i < length code" "index s = int i" and t: "in_tape s"
    and tl: "int (length (tape s)) = TapeLength"
    by (auto simp: loop_inv_def i_def)
  from inv obtain st where st: "pending code i = Inr st" "loopStack s = st @ base"
    by (auto simp: loop_inv_def i_def)
  from pending_step_ok [OF v i(1) st(1)] obtain st1 where
    p1: "pending code (Suc i) = Inr st1" and vl: "Validate_loop (int i) [code ! i] st = Inr st1"
    by blast
  consider (opn) "code ! i = CHR ''[''" | (cls) "code ! i = CHR '']''"
    | (oth) "code ! i \<noteq> CHR ''[''" "code ! i \<noteq> CHR '']''"
    by blast
  then show ?thesis
  proof cases
    case opn
    show ?thesis
    proof (cases "cell s = 0")
      case True
      from validated_open_matching [OF v i(1) opn] obtain j where
        m: "matching code i j" and sk: "skip_loop code (int i) [1] = Inr (int j)"
        and pj: "pending code (Suc j) = pending code i"
        by blast
      from m have jl: "j < length code" by (simp add: matching_def)
      from d True opn i t sk have "s1 = s\<lparr>index := int j\<rparr>"
        by (simp add: dispatch_def OpenLoop_def Push_def)
      with s' have "s' = s\<lparr>index := int j + 1\<rparr>" by simp
      moreover have "nat (int j + 1) = Suc j" by simp
      ultimately show ?thesis
        using jl t tl st pj by (simp add: loop_inv_def in_tape_def)
    next
      case False
      from d False opn i t have "s1 = s\<lparr>loopStack := index s # loopStack s\<rparr>"
        by (simp add: dispatch_def OpenLoop_def Push_def)
      with s' have e: "s' = s\<lparr>loopStack := index s # loopStack s, index := int i + 1\<rparr>"
        using i by simp
      from vl opn have "st1 = int i # st" by (simp add: Push_def)
      moreover have "nat (int i + 1) = Suc i" by simp
      ultimately show ?thesis
        using e i t tl st p1 by (simp add: loop_inv_def in_tape_def)
    qed
  next
    case cls
    from close_loop_step [OF v inv lt] cls obtain p rest st2 where
      ps: "0 \<le> p" "matching code (nat p) i" "pending code (nat p) = Inr st2"
        "pending code (Suc i) = Inr st2" "rest = st2 @ base"
      and dd: "dispatch code s = Some (Inr (s\<lparr>loopStack := rest,
                index := (if cell s \<noteq> 0 then p - 1 else index s)\<rparr>))"
      unfolding i_def [symmetric] by blast
    from ps(2) have pi: "nat p < i" by (simp add: matching_def)
    from d dd s' have e: "s' = s\<lparr>loopStack := rest,
          index := (if cell s \<noteq> 0 then p else int i + 1)\<rparr>"
      using i by auto
    have n1: "nat (int i + 1) = Suc i" by simp
    show ?thesis
    proof (cases "cell s = 0")
      case True
      with e ps i t tl n1 show ?thesis by (simp add: loop_inv_def in_tape_def)
    next
      case False
      with e ps i t tl pi show ?thesis by (simp add: loop_inv_def in_tape_def)
    qed
  next
    case oth
    from dispatch_other [OF d _ _ t tl] oth
    have f: "index s1 = index s" "loopStack s1 = loopStack s"
      "length (tape s1) = length (tape s)" "in_tape s1"
      by (simp_all add: i_def)
    from vl oth have "st1 = st" by simp
    moreover have "nat (int i + 1) = Suc i" by simp
    ultimately show ?thesis
      using f s' i tl st p1 by (simp add: loop_inv_def in_tape_def)
  qed
qed

lemma reaches_inv:
  assumes "Validate code = None" and "loop_inv code base s0" and "reaches code s0 s"
  shows "loop_inv code base s"
  using assms(3,1,2)
  by (induction rule: reaches.induct) (auto intro: loop_inv_step)

lemma reaches_front:
  assumes "reaches code s1 s" and "Run_iter code s0 = Some (Inr s1)"
    and "index s1 < int (length code)"
  shows "reaches code s0 s"
  using assms
proof (induction rule: reaches.induct)
  case reaches_start
  then show ?case by (intro reaches_iter [OF reaches.reaches_start])
next
  case (reaches_iter s s')
  then show ?case by (intro reaches.reaches_iter [of code s0 s s']) simp_all
qed

lemma Run_loop_result:
  assumes "Run_loop code s = Some r"
  shows "\<exists>s1. reaches code s s1 \<and> Run_iter code s1 = Some r
        \<and> (\<forall>s'. r = Inr s' \<longrightarrow> int (length code) \<le> index s')"
proof (rule Run_loop.raw_induct [where P = "\<lambda>code s r. \<exists>s1. reaches code s s1
    \<and> Run_iter code s1 = Some r \<and> (\<forall>s'. r = Inr s' \<longrightarrow> int (length code) \<le> index s')",
    OF _ assms])
  fix loop :: "string \<Rightarrow> state \<Rightarrow> (panic + state) option" and code s r
  assume IH: "\<And>c s y. loop c s = Some y \<Longrightarrow> \<exists>s1. reaches c s s1
    \<and> Run_iter c s1 = Some y \<and> (\<forall>s'. y = Inr s' \<longrightarrow> int (length c) \<le> index s')"
  assume body: "(case Run_iter code s of None \<Rightarrow> None | Some (Inl p) \<Rightarrow> Some (Inl p)
      | Some (Inr s') \<Rightarrow> if int (length code) \<le> index s' then Some (Inr s')
          else loop code s') = Some r"
  show "\<exists>s1. reaches code s s1 \<and> Run_iter code s1 = Some r
        \<and> (\<forall>s'. r = Inr s' \<longrightarrow> int (length code) \<le> index s')"
  proof (cases "Run_iter code s")
    case None
    with body show ?thesis by simp
  next
    case (Some a)
    show ?thesis
    proof (cases a)
      case (Inl p)
      with Some body have "r = Inl p" by simp
      with Some Inl show ?thesis by (auto intro: reaches_start)
    next
      case (Inr s2)
      show ?thesis
      proof (cases "int (length code) \<le> index s2")
        case True
        with Some Inr body have "r = Inr s2" by simp
        with Some Inr True show ?thesis by (auto intro: reaches_start)
      next
        case False
        with Some Inr body have "loop code s2 = Some r" by simp
        from IH [OF this] obtain s1 where s1: "reaches code s2 s1" "Run_iter code s1 = Some r"
          "\<forall>s'. r = Inr s' \<longrightarrow> int (length code) \<le> index s'" by blast
        from reaches_front [OF s1(1)] Some Inr False have "reaches code s s1" by simp
        with s1 show ?thesis by blast
      qed
    qed
  qed
qed

lemma Run_start_inv:
  assumes "in_tape s0" and "int (length (tape s0)) = TapeLength"
  shows "loop_inv code (loopStack s0) (Run_start clearTape s0)"
  using assms
  by (auto simp: loop_inv_def Run_start_def ClearTape_def in_tape_def pending_0 TapeLength_def)

text \<open>
  C5. On a validated source, whenever a pass of the loop of \<open>Run\<close> starts on a
  \<open>]\<close>, the loop stack is not empty and its top is the position of the matching
  \<open>[\<close>. The dispatch pops it, once. On a non-zero cell it sets the index to that
  position minus one, so that the pass ends on the matching \<open>[\<close>; on a zero cell it
  leaves the index alone and the pass ends on the next character.
\<close>

theorem close_loop_pops_and_jumps:
  assumes "Validate code = None" and "in_tape s0" and "int (length (tape s0)) = TapeLength"
    and "reaches code (Run_start clearTape s0) s"
    and "index s < int (length code)" and "code ! nat (index s) = CHR '']''"
  shows "\<exists>p rest. loopStack s = p # rest \<and> 0 \<le> p \<and> matching code (nat p) (nat (index s))
           \<and> dispatch code s = Some (Inr (s\<lparr>loopStack := rest,
                index := (if cell s \<noteq> 0 then p - 1 else index s)\<rparr>))
           \<and> Run_iter code s = Some (Inr (s\<lparr>loopStack := rest,
                index := (if cell s \<noteq> 0 then p else index s + 1)\<rparr>))"
proof -
  have "loop_inv code (loopStack s0) s"
    using reaches_inv [OF assms(1) Run_start_inv [OF assms(2,3)] assms(4)] .
  from close_loop_step [OF assms(1) this assms(5,6)] obtain p rest where
    "loopStack s = p # rest" "0 \<le> p" "matching code (nat p) (nat (index s))"
    and d: "dispatch code s = Some (Inr (s\<lparr>loopStack := rest,
                index := (if cell s \<noteq> 0 then p - 1 else index s)\<rparr>))"
    by blast
  moreover from d have "Run_iter code s = Some (Inr (s\<lparr>loopStack := rest,
                index := (if cell s \<noteq> 0 then p else index s + 1)\<rparr>))"
    by (simp add: Run_iter_def)
  ultimately show ?thesis by blast
qed

theorem close_loop_pops_and_jumps_witness:
  "\<exists>p rest. loopStack \<lparr>tape = (replicate 30000 0)[0 := 1], pointer = 0, index = 2, loopStack = [1], stdin = [],
       stdout = []\<rparr> = p # rest
     \<and> matching ''+[]'' (nat p) 2
     \<and> Run_iter ''+[]'' \<lparr>tape = (replicate 30000 0)[0 := 1], pointer = 0, index = 2, loopStack = [1], stdin = [],
       stdout = []\<rparr>
         = Some (Inr (\<lparr>tape = (replicate 30000 0)[0 := 1], pointer = 0, index = 2, loopStack = [1], stdin = [],
       stdout = []\<rparr>\<lparr>loopStack := rest, index := p\<rparr>))"
proof -
  define s0 where "s0 = \<lparr>tape = replicate 30000 0, pointer = 0, index = 0, loopStack = [], stdin = [],
       stdout = []\<rparr>"
  define s1 where "s1 = \<lparr>tape = (replicate 30000 0)[0 := 1], pointer = 0, index = 1, loopStack = [], stdin = [],
       stdout = []\<rparr>"
  define s2 where "s2 = \<lparr>tape = (replicate 30000 0)[0 := 1], pointer = 0, index = 2, loopStack = [1], stdin = [],
       stdout = []\<rparr>"
  have v: "Validate ''+[]'' = None"
    by (simp add: Validate_def Push_def Pop_def Length_def)
  have t: "in_tape s0" "int (length (tape s0)) = TapeLength"
    by (simp_all add: s0_def in_tape_def TapeLength_def)
  have st: "Run_start False s0 = s0"
    by (simp add: Run_start_def s0_def)
  have i1: "Run_iter ''+[]'' s0 = Some (Inr s1)"
    by (simp add: Run_iter_def dispatch_def Increment_def in_tape_def set_cell_def cell_def
        s0_def s1_def)
  have i2: "Run_iter ''+[]'' s1 = Some (Inr s2)"
    by (simp add: Run_iter_def dispatch_def OpenLoop_def Push_def in_tape_def cell_def
        s1_def s2_def)
  have "reaches ''+[]'' s0 s1"
    by (rule reaches_iter [OF reaches_start i1]) (simp add: s1_def)
  then have "reaches ''+[]'' s0 s2"
    by (rule reaches_iter [OF _ i2]) (simp add: s2_def)
  then have r: "reaches ''+[]'' (Run_start False s0) s2" by (simp add: st)
  have c: "index s2 < int (length ''+[]'')" "''+[]'' ! nat (index s2) = CHR '']''"
    "cell s2 \<noteq> 0" "index s2 = 2"
    by (simp_all add: s2_def cell_def)
  from close_loop_pops_and_jumps [OF v t r c(1,2)] c(3,4)
  have "\<exists>p rest. loopStack s2 = p # rest \<and> matching ''+[]'' (nat p) 2
     \<and> Run_iter ''+[]'' s2 = Some (Inr (s2\<lparr>loopStack := rest, index := p\<rparr>))"
    by auto
  then show ?thesis by (simp add: s2_def)
qed

text \<open>
  \<open>Run\<close> never resets the loop stack, a package variable that \<open>OpenLoop\<close>, an
  exported function, and a run that panicked inside a loop leave non-empty. Called with
  an entry on the loop stack, \<open>Run\<close> on the validated source \<open>+\<close> returns \<open>nil\<close>
  with that entry still there, although no loop was entered.
\<close>

theorem loop_stack_not_empty_at_return:
  "Validate ''+'' = None
   \<and> Run ''+'' False \<lparr>tape = replicate 30000 0, pointer = 0, index = 0, loopStack = [3],
       stdin = [], stdout = []\<rparr>
     = Some (Inr (None, \<lparr>tape = (replicate 30000 0)[0 := 1], pointer = 0, index = 1,
         loopStack = [3], stdin = [], stdout = [PrintLine []]\<rparr>))
   \<and> loopStack \<lparr>tape = (replicate 30000 0)[0 := 1], pointer = 0, index = 1,
         loopStack = [3], stdin = [], stdout = [PrintLine []]\<rparr> \<noteq> []"
  by (simp add: Run_def Validate_def Length_def Run_start_def Run_loop.simps Run_iter_def
      dispatch_def Increment_def in_tape_def set_cell_def cell_def)

text \<open>
  C6. On a validated source, whatever the loop stack holds when \<open>Run\<close> is called:
  whenever a pass starts, the loop stack is the stack of the call with one entry on top
  for each loop around the index, which are the loops entered and not left (their
  number is the number of \<open>[\<close> before the index minus the number of \<open>]\<close> before
  it); a \<open>]\<close> never pops the empty stack, nor an entry of the call; and when
  \<open>Run\<close> returns \<open>nil\<close> the loop stack is the stack of the call, so it is empty if
  it was empty then.
\<close>

theorem loop_stack_relative_to_call:
  assumes "Validate code = None" and "in_tape s0" and "int (length (tape s0)) = TapeLength"
  shows "(\<forall>s. reaches code (Run_start clearTape s0) s \<longrightarrow>
            int (length (loopStack s))
              = int (length (loopStack s0)) + excess (take (nat (index s)) code)
          \<and> drop (length (loopStack s) - length (loopStack s0)) (loopStack s) = loopStack s0
          \<and> (index s < int (length code) \<and> code ! nat (index s) = CHR '']''
               \<longrightarrow> CloseLoop s \<noteq> Inl EmptyStack
                 \<and> length (loopStack s0) < length (loopStack s)))
       \<and> (\<forall>s'. Run code clearTape s0 = Some (Inr (None, s')) \<longrightarrow>
             loopStack s' = loopStack s0 \<and> (loopStack s0 = [] \<longrightarrow> loopStack s' = []))"
proof (intro conjI allI impI)
  fix s assume r: "reaches code (Run_start clearTape s0) s"
  have inv: "loop_inv code (loopStack s0) s"
    using reaches_inv [OF assms(1) Run_start_inv [OF assms(2,3)] r] .
  then obtain st where st: "pending code (nat (index s)) = Inr st"
      "loopStack s = st @ loopStack s0"
    and le: "nat (index s) \<le> length code"
    by (auto simp: loop_inv_def)
  from pending_excess [OF st(1) le] st(2)
  show "int (length (loopStack s))
      = int (length (loopStack s0)) + excess (take (nat (index s)) code)"
    by simp
  from st(2) show "drop (length (loopStack s) - length (loopStack s0)) (loopStack s) = loopStack s0"
    by simp
  assume c: "index s < int (length code) \<and> code ! nat (index s) = CHR '']''"
  with close_loop_step [OF assms(1) inv] obtain p rest st1 where
    pr: "loopStack s = p # rest" "rest = st1 @ loopStack s0"
    by blast
  then show "CloseLoop s \<noteq> Inl EmptyStack"
    by (simp add: CloseLoop_def Pop_def)
  from pr show "length (loopStack s0) < length (loopStack s)" by simp
next
  fix s' assume "Run code clearTape s0 = Some (Inr (None, s'))"
  with assms(1) obtain s2 where l: "Run_loop code (Run_start clearTape s0) = Some (Inr s2)"
    and s': "s' = s2\<lparr>stdout := stdout s2 @ [PrintLine []]\<rparr>"
    by (auto simp: Run_def split: option.splits sum.splits)
  from Run_loop_result [OF l] obtain s1 where r: "reaches code (Run_start clearTape s0) s1"
    and it: "Run_iter code s1 = Some (Inr s2)" and ge: "int (length code) \<le> index s2"
    by auto
  have "loop_inv code (loopStack s0) s1"
    using reaches_inv [OF assms(1) Run_start_inv [OF assms(2,3)] r] .
  from loop_inv_step [OF assms(1) this it] ge
  have "index s2 = int (length code)"
    and "\<exists>st. pending code (nat (index s2)) = Inr st \<and> loopStack s2 = st @ loopStack s0"
    by (auto simp: loop_inv_def)
  with assms(1) have "loopStack s2 = loopStack s0"
    by (auto simp: Validate_None_pending)
  with s' show e: "loopStack s' = loopStack s0" by simp
  assume "loopStack s0 = []"
  with e show "loopStack s' = []" by simp
qed

theorem loop_stack_relative_to_call_witness:
  "\<exists>s'. Run ''+[-]'' False \<lparr>tape = replicate 30000 0, pointer = 0, index = 0, loopStack = [3],
       stdin = [], stdout = []\<rparr> = Some (Inr (None, s')) \<and> loopStack s' = [3]"
proof -
  define s0 where "s0 = \<lparr>tape = replicate 30000 0, pointer = 0, index = 0, loopStack = [3],
       stdin = [], stdout = []\<rparr>"
  have v: "Validate ''+[-]'' = None"
    by (simp add: Validate_def Push_def Pop_def Length_def)
  have t: "in_tape s0" "int (length (tape s0)) = TapeLength" "loopStack s0 = [3]"
    by (simp_all add: s0_def in_tape_def TapeLength_def)
  have "\<exists>s'. Run_loop ''+[-]'' (Run_start False s0) = Some (Inr s')"
    by (simp add: Run_loop.simps Run_iter_def dispatch_def Increment_def Decrement_def
        in_tape_def set_cell_def cell_def OpenLoop_def CloseLoop_def Push_def Pop_def
        Run_start_def s0_def)
  with v obtain s' where "Run ''+[-]'' False s0 = Some (Inr (None, s'))"
    by (auto simp: Run_def)
  with loop_stack_relative_to_call [OF v t(1,2), of False] t(3) show ?thesis
    unfolding s0_def by auto
qed

section \<open>Run on validated sources that are not empty\<close>

lemma FormatCells_loop_panic:
  assumes "FormatCells_loop tp i e acc = Some (Inl p)"
  shows "p = TapeIndexOutOfRange"
proof -
  have "\<forall>p. r = Inl p \<longrightarrow> p = TapeIndexOutOfRange"
    if "FormatCells_loop tp i e acc = Some r" for r
    using that
  proof (rule FormatCells_loop.raw_induct [where P = "\<lambda>tp i e acc r.
      \<forall>p. r = Inl p \<longrightarrow> p = TapeIndexOutOfRange", rotated])
    fix loop :: "byte list \<Rightarrow> int \<Rightarrow> int \<Rightarrow> (int \<times> byte) list \<Rightarrow> (panic + (int \<times> byte) list) option"
      and tp i e acc r
    assume IH: "\<And>tp i e acc r. loop tp i e acc = Some r \<Longrightarrow>
       \<forall>p. r = Inl p \<longrightarrow> p = TapeIndexOutOfRange"
    assume "(if i \<noteq> e + 1 then
        (let i' = (if i \<ge> TapeLength then 0 else i) in
         if 0 \<le> i' \<and> i' < int (length tp)
         then loop tp (i' + 1) e (acc @ [(i', tp ! nat i')])
         else Some (Inl TapeIndexOutOfRange))
      else Some (Inr acc)) = Some r"
    then show "\<forall>p. r = Inl p \<longrightarrow> p = TapeIndexOutOfRange"
      using IH by (auto simp: Let_def split: if_splits)
  qed
  with assms show ?thesis by simp
qed


lemma RunSpecialInstruction_panic:
  "RunSpecialInstruction inst s = Some (Inl p) \<Longrightarrow> p = TapeIndexOutOfRange"
  by (auto simp: RunSpecialInstruction_def FormatCells_def FormatCells_window_def Let_def
           split: if_splits option.splits sum.splits dest: FormatCells_loop_panic)

lemma dispatch_panic:
  assumes v: "Validate code = None" and inv: "loop_inv code base s"
    and lt: "index s < int (length code)" and d: "dispatch code s = Some (Inl p)"
  shows "p = TapeIndexOutOfRange"
proof -
  define i where "i = nat (index s)"
  from inv lt have i: "i < length code" "index s = int i" and t: "in_tape s"
    by (auto simp: loop_inv_def i_def)
  consider (opn) "code ! i = CHR ''[''" | (cls) "code ! i = CHR '']''" | (bang) "code ! i = CHR ''!''"
    | (oth) "code ! i \<noteq> CHR ''[''" "code ! i \<noteq> CHR '']''" "code ! i \<noteq> CHR ''!''"
    by blast
  then show ?thesis
  proof cases
    case opn
    from validated_open_matching [OF v i(1) opn] obtain j where
      "skip_loop code (int i) [1] = Inr (int j)" by blast
    with d opn i t show ?thesis
      by (simp add: dispatch_def OpenLoop_def Push_def split: if_splits)
  next
    case cls
    with close_loop_step [OF v inv lt] d show ?thesis by (auto simp: i_def)
  next
    case bang
    with d i have "\<exists>inst. RunSpecialInstruction inst s = Some (Inl p)"
      by (auto simp: dispatch_def split: list.splits)
    then show ?thesis by (auto dest: RunSpecialInstruction_panic)
  next
    case oth
    with d i t show ?thesis
      by (auto simp: dispatch_def Let_def Increment_def Decrement_def Output_def Input_def
               split: if_splits list.splits)
  qed
qed

text \<open>
  On a validated source that is not empty, every pass of the loop of \<open>Run\<close> starts with
  the index inside the source, and neither the dispatch nor the skip scan reads the source
  outside it; the only panic left is that of \<open>FormatCells\<close> on a window that is too wide.
\<close>

lemma run_reads_inside_source:
  assumes v: "Validate code = None" and ne: "code \<noteq> []"
    and t: "in_tape s0" "int (length (tape s0)) = TapeLength"
    and r: "reaches code (Run_start clearTape s0) s"
  shows "0 \<le> index s \<and> index s < int (length code)
       \<and> dispatch code s \<noteq> Some (Inl CodeIndexOutOfRange)
       \<and> dispatch code s \<noteq> Some (Inl EmptyStack)"
proof -
  have inv: "loop_inv code (loopStack s0) s"
    using reaches_inv [OF v Run_start_inv [OF t] r] .
  from r ne have lt: "index s < int (length code)"
    by (cases rule: reaches.cases) (simp_all add: Run_start_def)
  from inv have "0 \<le> index s" by (simp add: loop_inv_def)
  moreover from dispatch_panic [OF v inv lt]
  have "dispatch code s \<noteq> Some (Inl CodeIndexOutOfRange)"
    "dispatch code s \<noteq> Some (Inl EmptyStack)" by auto
  ultimately show ?thesis using lt by simp
qed

text \<open>When \<open>Run\<close> returns \<open>nil\<close>, the index is the length of the source.\<close>

lemma run_returns_at_end:
  assumes v: "Validate code = None" and t: "in_tape s0" "int (length (tape s0)) = TapeLength"
    and r: "Run code clearTape s0 = Some (Inr (None, s'))"
  shows "index s' = int (length code)"
proof -
  from r v obtain s2 where l: "Run_loop code (Run_start clearTape s0) = Some (Inr s2)"
    and s': "s' = s2\<lparr>stdout := stdout s2 @ [PrintLine []]\<rparr>"
    by (auto simp: Run_def split: option.splits sum.splits)
  from Run_loop_result [OF l] obtain s1 where r1: "reaches code (Run_start clearTape s0) s1"
    and it: "Run_iter code s1 = Some (Inr s2)" and ge: "int (length code) \<le> index s2"
    by auto
  from loop_inv_step [OF v reaches_inv [OF v Run_start_inv [OF t] r1] it] ge s'
  show ?thesis by (simp add: loop_inv_def)
qed

end
